theory Spec2Isabelle
  imports Complex_Main "HOL-Library.AList"
begin

section \<open>Data model shared by the operations of \<^verbatim>\<open>diffrax/misc/misc.py\<close>\<close>

text \<open>
  Exceptions of the Python code are values: every \<^verbatim>\<open>assert\<close>, failed lookup and
  failed library call of the source is a branch returning \<open>Inl\<close> of one of these.
\<close>

datatype py_error = AssertionError | AttributeError | KeyError | IndexError | TypeError | ValueError

section \<open>\<^verbatim>\<open>ContainerMeta\<close>\<close>

text \<open>
  A Python \<^verbatim>\<open>dict\<close> keeps insertion order and has unique keys: it is an association
  list whose keys are distinct. The assignment \<^verbatim>\<open>d[k] = v\<close> is \<open>AList.update\<close>: it
  replaces the value of an existing key in place and appends a new key at the end.

  The class namespace that \<^verbatim>\<open>ContainerMeta.__new__\<close> builds holds three kinds of
  values: the declared value itself (kept for a dunder key), the integer tag that replaces
  the value of any other key, and the reverse-lookup dictionary stored under
  \<^verbatim>\<open>_reverse_lookup\<close>.
\<close>

datatype 'v attr = Kept 'v | Tag int | ReverseLookup "(int \<times> 'v) list"

record 'v pyclass =
  cls_name :: string
  cls_bases :: "string list"
  cls_dict :: "(string \<times> 'v attr) list"

definition startswith :: "string \<Rightarrow> string \<Rightarrow> bool" where
  "startswith s p = (take (length p) s = p)"

definition endswith :: "string \<Rightarrow> string \<Rightarrow> bool" where
  "endswith s p = (length p \<le> length s \<and> drop (length s - length p) s = p)"

definition is_dunder :: "string \<Rightarrow> bool" where
  "is_dunder key = (startswith key ''__'' \<and> endswith key ''__'')"

text \<open>
  The \<^verbatim>\<open>for key, value in dict.items()\<close> loop of \<^verbatim>\<open>__new__\<close>, with the three
  variables it updates (\<^verbatim>\<open>_dict\<close>, \<^verbatim>\<open>_reverse_lookup\<close>, \<^verbatim>\<open>i\<close>) passed along.
\<close>

fun container_loop ::
  "(string \<times> 'v) list \<Rightarrow> (string \<times> 'v attr) list \<Rightarrow> (int \<times> 'v) list \<Rightarrow> int
     \<Rightarrow> (string \<times> 'v attr) list \<times> (int \<times> 'v) list \<times> int" where
  "container_loop [] d rl i = (d, rl, i)"
| "container_loop ((key, val) # rest) d rl i =
     (if is_dunder key
      then container_loop rest (AList.update key (Kept val) d) rl i
      else container_loop rest (AList.update key (Tag i) d) (AList.update i val rl) (i + 1))"

text \<open>
  \<^verbatim>\<open>ContainerMeta.__new__(cls, name, bases, dict)\<close>: the assertion, the loop, the
  store of \<^verbatim>\<open>_reverse_lookup\<close>, and the class that \<^verbatim>\<open>type.__new__\<close> makes of the
  new namespace.
\<close>

definition ContainerMeta_new ::
  "string \<Rightarrow> string list \<Rightarrow> (string \<times> 'v) list \<Rightarrow> py_error + 'v pyclass" where
  "ContainerMeta_new name bases dict =
     (if ''_reverse_lookup'' \<in> set (map fst dict) then Inl AssertionError
      else
        (case container_loop dict [] [] 0 of
           (d, rl, i) \<Rightarrow>
             Inr \<lparr>cls_name = name, cls_bases = bases,
                  cls_dict = AList.update ''_reverse_lookup'' (ReverseLookup rl) d\<rparr>))"

text \<open>
  Attribute access \<^verbatim>\<open>cls.k\<close> for a name of the class's own namespace (which shadows
  every base class); a name that is absent raises \<^verbatim>\<open>AttributeError\<close>.
\<close>

definition getattr :: "'v pyclass \<Rightarrow> string \<Rightarrow> py_error + 'v attr" where
  "getattr cls k = (case map_of (cls_dict cls) k of None \<Rightarrow> Inl AttributeError | Some a \<Rightarrow> Inr a)"

text \<open>\<^verbatim>\<open>ContainerMeta.__getitem__(cls, item)\<close>, that is \<^verbatim>\<open>cls._reverse_lookup[item]\<close>.\<close>

definition getitem :: "'v pyclass \<Rightarrow> int \<Rightarrow> py_error + 'v" where
  "getitem cls item =
     (case getattr cls ''_reverse_lookup'' of
        Inl e \<Rightarrow> Inl e
      | Inr (ReverseLookup rl) \<Rightarrow>
          (case map_of rl item of None \<Rightarrow> Inl KeyError | Some v \<Rightarrow> Inr v)
      | Inr _ \<Rightarrow> Inl TypeError)"

text \<open>The attributes that are rebound, in declaration order.\<close>

definition non_dunder :: "(string \<times> 'v) list \<Rightarrow> (string \<times> 'v) list" where
  "non_dunder dict = filter (\<lambda>kv. \<not> is_dunder (fst kv)) dict"

section \<open>\<^verbatim>\<open>fill_forward\<close>\<close>

text \<open>
  The function only tests array entries for NaN and selects between them, so an entry is
  either NaN or some other floating-point value, of which nothing more is needed.
  An array of shape \<open>(times, channels)\<close> is the list of its rows; \<open>rows_of_length\<close>
  says that every row has \<open>channels\<close> entries.
\<close>

datatype 'a float = NaN | Num 'a

definition isnan :: "'a float \<Rightarrow> bool" where
  "isnan x = (x = NaN)"

definition rows_of_length :: "nat \<Rightarrow> 'a list list \<Rightarrow> bool" where
  "rows_of_length channels ys = (\<forall>r \<in> set ys. length r = channels)"

text \<open>\<^verbatim>\<open>jnp.where(cond, x, y)\<close> on three arrays of one shape: entrywise selection.\<close>

definition where3 :: "bool list \<Rightarrow> 'a list \<Rightarrow> 'a list \<Rightarrow> 'a list" where
  "where3 cond x y = map (\<lambda>(c, a, b). if c then a else b) (zip cond (zip x y))"

text \<open>
  \<^verbatim>\<open>_fill_forward(last_observed_yi, yi)\<close>: the body of the scan, returning the new
  carry and the output row (the same array twice).
\<close>

definition fill_forward_inner ::
  "'a float list \<Rightarrow> 'a float list \<Rightarrow> 'a float list \<times> 'a float list" where
  "fill_forward_inner last_observed_yi yi =
     (let yi' = where3 (map isnan yi) last_observed_yi yi in (yi', yi'))"

text \<open>
  \<^verbatim>\<open>lax.scan(f, init, xs)\<close>: \<open>f\<close> is run over the rows of \<open>xs\<close> in order, the carry
  threaded through; the result is the final carry and the list of outputs.
\<close>

fun scan :: "('c \<Rightarrow> 'x \<Rightarrow> 'c \<times> 'y) \<Rightarrow> 'c \<Rightarrow> 'x list \<Rightarrow> 'c \<times> 'y list" where
  "scan f init [] = (init, [])"
| "scan f init (x # xs) =
     (case f init x of (carry, y) \<Rightarrow>
        (case scan f carry xs of (final, ys) \<Rightarrow> (final, y # ys)))"

text \<open>
  \<^verbatim>\<open>fill_forward(ys)\<close>. The initial carry is \<^verbatim>\<open>ys[0]\<close>; indexing an array that has
  no rows raises \<^verbatim>\<open>IndexError\<close>.
\<close>

definition fill_forward :: "'a float list list \<Rightarrow> py_error + 'a float list list" where
  "fill_forward ys =
     (case ys of
        [] \<Rightarrow> Inl IndexError
      | y0 # _ \<Rightarrow> Inr (snd (scan fill_forward_inner y0 ys)))"

text \<open>The output row of one scan step, as a function of the carry and the input row.\<close>

definition fill :: "'a float list \<Rightarrow> 'a float list \<Rightarrow> 'a float list" where
  "fill prev yi = where3 (map isnan yi) prev yi"

section \<open>\<^verbatim>\<open>stack_pytrees\<close>\<close>

text \<open>
  \<^verbatim>\<open>stack_pytrees\<close> is two calls into JAX, \<^verbatim>\<open>jax.tree_map\<close> and \<^verbatim>\<open>jnp.stack\<close>.
  Both are modelled by what the library documents: an array is its shape and its entries in
  row-major order; a pytree is a leaf or a container node (tuple, list, dictionary with its
  keys, \<^verbatim>\<open>None\<close>) over child pytrees; a treedef is a pytree without its leaves.
\<close>

record 'a ndarray =
  shape :: "nat list"
  data :: "'a list"

text \<open>An array holds as many entries as its shape says.\<close>

definition wf_ndarray :: "'a ndarray \<Rightarrow> bool" where
  "wf_ndarray a = (length (data a) = prod_list (shape a))"

text \<open>\<^verbatim>\<open>a[i]\<close>: the \<open>i\<close>-th slice of an array along its leading axis.\<close>

definition index0 :: "'a ndarray \<Rightarrow> nat \<Rightarrow> 'a ndarray" where
  "index0 a i =
     (let m = prod_list (tl (shape a))
      in \<lparr>shape = tl (shape a), data = take m (drop (i * m) (data a))\<rparr>)"

datatype node_kind = PyTuple | PyList | PyDict "string list" | PyNone

datatype 'a pytree = Leaf 'a | Node node_kind "'a pytree list"

datatype treedef = LeafDef | NodeDef node_kind "treedef list"

fun tree_structure :: "'a pytree \<Rightarrow> treedef" where
  "tree_structure (Leaf x) = LeafDef"
| "tree_structure (Node k ts) = NodeDef k (map tree_structure ts)"

fun tree_leaves :: "'a pytree \<Rightarrow> 'a list" where
  "tree_leaves (Leaf x) = [x]"
| "tree_leaves (Node k ts) = concat (map tree_leaves ts)"

definition tree_flatten :: "'a pytree \<Rightarrow> 'a list \<times> treedef" where
  "tree_flatten t = (tree_leaves t, tree_structure t)"

fun num_leaves :: "treedef \<Rightarrow> nat" where
  "num_leaves LeafDef = 1"
| "num_leaves (NodeDef k ds) = sum_list (map num_leaves ds)"

text \<open>
  \<^verbatim>\<open>treedef.flatten_up_to(tree)\<close>: the subtrees of \<open>tree\<close> at the leaf positions of the
  treedef, left to right; \<^verbatim>\<open>ValueError\<close> when \<open>tree\<close> does not have the treedef's nodes
  above those positions.
\<close>

fun flatten_up_to :: "treedef \<Rightarrow> 'a pytree \<Rightarrow> py_error + 'a pytree list"
  and flatten_up_to_children :: "treedef list \<Rightarrow> 'a pytree list \<Rightarrow> py_error + 'a pytree list" where
  "flatten_up_to LeafDef t = Inr [t]"
| "flatten_up_to (NodeDef k ds) (Leaf x) = Inl ValueError"
| "flatten_up_to (NodeDef k ds) (Node k' ts) =
     (if k = k' then flatten_up_to_children ds ts else Inl ValueError)"
| "flatten_up_to_children [] [] = Inr []"
| "flatten_up_to_children (d # ds) (t # ts) =
     (case flatten_up_to d t of
        Inl e \<Rightarrow> Inl e
      | Inr xs \<Rightarrow>
          (case flatten_up_to_children ds ts of Inl e \<Rightarrow> Inl e | Inr ys \<Rightarrow> Inr (xs @ ys)))"
| "flatten_up_to_children [] (t # ts) = Inl ValueError"
| "flatten_up_to_children (d # ds) [] = Inl ValueError"

text \<open>
  \<^verbatim>\<open>treedef.unflatten(leaves)\<close>: the tree of that structure over the given leaves, which
  must be as many as the treedef has leaf positions (\<^verbatim>\<open>ValueError\<close> otherwise).
\<close>

fun unflatten :: "treedef \<Rightarrow> 'a list \<Rightarrow> 'a pytree"
  and unflatten_children :: "treedef list \<Rightarrow> 'a list \<Rightarrow> 'a pytree list" where
  "unflatten LeafDef xs = Leaf (hd xs)"
| "unflatten (NodeDef k ds) xs = Node k (unflatten_children ds xs)"
| "unflatten_children [] xs = []"
| "unflatten_children (d # ds) xs =
     unflatten d (take (num_leaves d) xs) # unflatten_children ds (drop (num_leaves d) xs)"

definition treedef_unflatten :: "treedef \<Rightarrow> 'a list \<Rightarrow> py_error + 'a pytree" where
  "treedef_unflatten td xs =
     (if length xs = num_leaves td then Inr (unflatten td xs) else Inl ValueError)"

text \<open>A list of results is the list of their values, or the first error.\<close>

fun sequence :: "('e + 'a) list \<Rightarrow> 'e + 'a list" where
  "sequence [] = Inr []"
| "sequence (Inl e # rs) = Inl e"
| "sequence (Inr x # rs) = (case sequence rs of Inl e \<Rightarrow> Inl e | Inr xs \<Rightarrow> Inr (x # xs))"

text \<open>Python's \<^verbatim>\<open>zip(*ls)\<close>: the columns of \<open>ls\<close>, as many as its shortest list is long.\<close>

definition zip_star :: "'a list list \<Rightarrow> 'a list list" where
  "zip_star ls =
     (case ls of
        [] \<Rightarrow> []
      | l # rest \<Rightarrow> map (\<lambda>j. map (\<lambda>xs. xs ! j) ls) [0 ..< fold min (map length rest) (length l)])"

text \<open>
  \<^verbatim>\<open>jax.tree_map(f, tree, *rest)\<close>: flatten \<open>tree\<close>, flatten every tree of \<open>rest\<close> up to
  its treedef, call \<open>f\<close> on each column of leaves and unflatten the results. \<open>f\<close> is
  handed, from each tree of \<open>rest\<close>, whatever stands at the leaf position, a leaf or not.
\<close>

definition tree_map ::
  "('a pytree list \<Rightarrow> py_error + 'b) \<Rightarrow> 'a pytree \<Rightarrow> 'a pytree list \<Rightarrow> py_error + 'b pytree" where
  "tree_map f tree rest =
     (case tree_flatten tree of
        (leaves, treedef) \<Rightarrow>
          (case sequence (map (flatten_up_to treedef) rest) of
             Inl e \<Rightarrow> Inl e
           | Inr rest_leaves \<Rightarrow>
               (case sequence (map f (zip_star (map Leaf leaves # rest_leaves))) of
                  Inl e \<Rightarrow> Inl e
                | Inr ys \<Rightarrow> treedef_unflatten treedef ys)))"

text \<open>
  \<^verbatim>\<open>jnp.stack(arrays)\<close> along axis 0: its arguments must be arrays (\<^verbatim>\<open>TypeError\<close> for a
  container), at least one, all of one shape (\<^verbatim>\<open>ValueError\<close> otherwise); the result has
  a new leading axis and holds the arguments one after the other.
\<close>

fun as_array :: "'a pytree \<Rightarrow> py_error + 'a" where
  "as_array (Leaf a) = Inr a"
| "as_array (Node k ts) = Inl TypeError"

definition jnp_stack :: "'a ndarray list \<Rightarrow> py_error + 'a ndarray" where
  "jnp_stack arrays =
     (case arrays of
        [] \<Rightarrow> Inl ValueError
      | a # rest \<Rightarrow>
          if list_all (\<lambda>b. shape b = shape a) rest
          then Inr \<lparr>shape = length arrays # shape a, data = concat (map data arrays)\<rparr>
          else Inl ValueError)"

text \<open>\<^verbatim>\<open>_stack_pytrees(*arrays)\<close>.\<close>

definition stack_pytrees_inner :: "'a ndarray pytree list \<Rightarrow> py_error + 'a ndarray" where
  "stack_pytrees_inner arrays =
     (case sequence (map as_array arrays) of Inl e \<Rightarrow> Inl e | Inr as \<Rightarrow> jnp_stack as)"

text \<open>
  \<^verbatim>\<open>stack_pytrees(pytrees)\<close>, that is \<^verbatim>\<open>jax.tree_map(_stack_pytrees, *pytrees)\<close>: with
  an empty list the call lacks the required argument \<^verbatim>\<open>tree\<close> and raises
  \<^verbatim>\<open>TypeError\<close>.
\<close>

definition stack_pytrees :: "'a ndarray pytree list \<Rightarrow> py_error + 'a ndarray pytree" where
  "stack_pytrees pytrees =
     (case pytrees of
        [] \<Rightarrow> Inl TypeError
      | tree # rest \<Rightarrow> tree_map stack_pytrees_inner tree rest)"

text \<open>The stack of the \<open>j\<close>-th leaves of a list of pytrees.\<close>

definition stacked_leaf :: "'a ndarray pytree list \<Rightarrow> nat \<Rightarrow> 'a ndarray" where
  "stacked_leaf pytrees j =
     \<lparr>shape = length pytrees # shape (tree_leaves (hd pytrees) ! j),
      data = concat (map data (map (\<lambda>t. tree_leaves t ! j) pytrees))\<rparr>"

section \<open>The integration loop\<close>

text \<open>
  Modelled from the spec: the solver, controller and loop code (\<^verbatim>\<open>diffeqsolve\<close> and the
  classes the tests construct) is not among the sources, only \<^verbatim>\<open>test_integrate.py\<close>,
  which calls it. The definitions of this section follow sections 3 to 7 of the
  specification, with time and the numeric leaves as exact rationals. This first one is the
  error taxonomy of its section 7.
\<close>

datatype failure =
  StructureMismatch | MissingInitialStep | DirectionMismatch | GridMismatch
  | ControllerSolverMismatch | ImplicitNotConverged | StepSizeUnderflow | MaxStepsExceeded
  | OutOfDomain

text \<open>
  Modelled from the spec: the states of the integration loop, \<^verbatim>\<open>RUNNING\<close>, \<^verbatim>\<open>DONE\<close>
  and \<^verbatim>\<open>FAILED\<close> (section 4.5), the last with the fatal error that ended the solve.
\<close>

datatype status = RUNNING | DONE | FAILED failure

text \<open>
  Modelled from the spec: what one solver step produces (section 4.3): a candidate next
  state with an error estimate (\<open>None\<close> is the sentinel of a solver without one), the
  non-fatal signal that an implicit stage solve did not converge, or a fatal error.
\<close>

datatype 'y step_result = Candidate 'y "'y option" | NotConverged | Fatal failure

text \<open>
  Modelled from the spec: a solver is its single-step function
  \<^verbatim>\<open>step(t0, t1, y0)\<close> and the declaration whether it supports adaptive step control.
\<close>

record 'y solver =
  step :: "rat \<Rightarrow> rat \<Rightarrow> 'y \<Rightarrow> 'y step_result"
  supports_adaptive :: bool

text \<open>
  Modelled from the spec: the PID controller (section 4.4). The specification leaves its
  formula open, so the scaled error norm, the factor the formula yields from it (clamped),
  the factor by which a step that could not be computed is shrunk, the minimum resolvable
  step and the choice of an initial step are parameters.
\<close>

record 'y pid =
  scaled_error :: "'y \<Rightarrow> 'y \<Rightarrow> 'y \<Rightarrow> rat"
  factor :: "rat \<Rightarrow> rat"
  shrink :: rat
  dtmin :: rat
  initial_dt :: "rat \<Rightarrow> rat \<Rightarrow> 'y \<Rightarrow> rat"

text \<open>
  Modelled from the spec: the three step-size controllers of section 4.4: constant,
  step-to with its grid of time points, and PID-adaptive.
\<close>

datatype 'y controller = ConstantStepSize | StepTo "rat list" | PIDController "'y pid"

text \<open>Modelled from the spec: the state the integration loop carries from step to step.\<close>

record 'y loop_state =
  tprev :: rat
  ycur :: 'y
  dtcur :: rat
  grid_ahead :: "rat list"
  status :: status
  num_accepted_steps :: nat
  num_rejected_steps :: nat
  accepted :: "(rat \<times> 'y) list"

text \<open>
  Modelled from the spec: \<open>t\<close> has reached the end time \<open>t1\<close> in the direction
  \<open>sign(t1 - t0)\<close> of the solve.
\<close>

definition reached :: "rat \<Rightarrow> rat \<Rightarrow> rat \<Rightarrow> bool" where
  "reached t0 t1 t = (sgn (t1 - t0) * (t1 - t) \<le> 0)"

text \<open>Modelled from the spec: a proposed step does not go beyond the end time.\<close>

definition clip_to_end :: "rat \<Rightarrow> rat \<Rightarrow> rat \<Rightarrow> rat" where
  "clip_to_end t0 t1 t = (if reached t0 t1 t then t1 else t)"

text \<open>
  Modelled from the spec: on accept the loop commits \<open>(t1, y1)\<close>, records it, advances
  the time, and is done when the time has reached the end time.
\<close>

definition accept ::
  "rat \<Rightarrow> rat \<Rightarrow> 'y loop_state \<Rightarrow> rat \<Rightarrow> 'y \<Rightarrow> rat \<Rightarrow> rat list \<Rightarrow> 'y loop_state" where
  "accept t0 t1 s tnext y1 next_dt next_grid =
     s\<lparr>tprev := tnext, ycur := y1, dtcur := next_dt, grid_ahead := next_grid,
       status := (if reached t0 t1 tnext then DONE else RUNNING),
       num_accepted_steps := num_accepted_steps s + 1,
       accepted := accepted s @ [(tnext, y1)]\<rparr>"

text \<open>
  Modelled from the spec: on reject the candidate is discarded and the step retried from
  the same time and state with the controller's shrunk step; a step below the minimum
  resolvable step is the fatal step size underflow.
\<close>

definition reject :: "'y pid \<Rightarrow> 'y loop_state \<Rightarrow> rat \<Rightarrow> 'y loop_state" where
  "reject p s next_dt =
     s\<lparr>dtcur := next_dt, num_rejected_steps := num_rejected_steps s + 1,
       status := (if \<bar>next_dt\<bar> < dtmin p then FAILED StepSizeUnderflow else RUNNING)\<rparr>"

text \<open>Modelled from the spec: the step-to controller's next step is the next grid gap.\<close>

definition next_gap :: "rat \<Rightarrow> rat list \<Rightarrow> rat \<Rightarrow> rat" where
  "next_gap t g d = (case g of [] \<Rightarrow> d | t' # _ \<Rightarrow> t' - t)"

text \<open>
  Modelled from the spec: one iteration of the loop (section 4.5): propose the step,
  evaluate the solver, consult the controller. A convergence failure is a rejected step
  under the adaptive controller and fatal under the others (sections 4.3 and 7).
\<close>

definition iteration ::
  "'y solver \<Rightarrow> 'y controller \<Rightarrow> rat \<Rightarrow> rat \<Rightarrow> 'y loop_state \<Rightarrow> 'y loop_state" where
  "iteration solver ctrl t0 t1 s =
     (let tnext = clip_to_end t0 t1 (tprev s + dtcur s) in
      case step solver (tprev s) tnext (ycur s) of
        Fatal f \<Rightarrow> s\<lparr>status := FAILED f\<rparr>
      | NotConverged \<Rightarrow>
          (case ctrl of
             PIDController p \<Rightarrow> reject p s (shrink p * dtcur s)
           | _ \<Rightarrow> s\<lparr>status := FAILED ImplicitNotConverged\<rparr>)
      | Candidate y1 err \<Rightarrow>
          (case ctrl of
             ConstantStepSize \<Rightarrow> accept t0 t1 s tnext y1 (dtcur s) (grid_ahead s)
           | StepTo ts \<Rightarrow>
               accept t0 t1 s tnext y1 (next_gap tnext (tl (grid_ahead s)) (dtcur s))
                 (tl (grid_ahead s))
           | PIDController p \<Rightarrow>
               (case err of
                  None \<Rightarrow> s\<lparr>status := FAILED ControllerSolverMismatch\<rparr>
                | Some e \<Rightarrow>
                    (let sc = scaled_error p (ycur s) y1 e; next_dt = factor p sc * dtcur s
                     in if sc \<le> 1 then accept t0 t1 s tnext y1 next_dt (grid_ahead s)
                        else reject p s next_dt))))"

text \<open>
  Modelled from the spec: the loop iterates while it is running; when the configured
  maximum number of steps is used up and it still runs, that is the fatal error.
\<close>

fun run ::
  "nat \<Rightarrow> 'y solver \<Rightarrow> 'y controller \<Rightarrow> rat \<Rightarrow> rat \<Rightarrow> 'y loop_state \<Rightarrow> 'y loop_state" where
  "run 0 solver ctrl t0 t1 s =
     (if status s = RUNNING then s\<lparr>status := FAILED MaxStepsExceeded\<rparr> else s)"
| "run (Suc n) solver ctrl t0 t1 s =
     (if status s = RUNNING then run n solver ctrl t0 t1 (iteration solver ctrl t0 t1 s) else s)"

text \<open>
  Modelled from the spec: the validation before stepping begins (section 7) and the
  first step: the constant controller needs \<open>dt0\<close>, in the direction of the solve; the
  step-to controller takes its steps from its grid, whose bounds must be \<open>t0\<close> and \<open>t1\<close>
  (the test passes it \<open>dt0 = None\<close>); the adaptive controller needs a solver that
  supports it and chooses an initial step when it is given none.
\<close>

definition initial_step ::
  "'y solver \<Rightarrow> 'y controller \<Rightarrow> rat \<Rightarrow> rat \<Rightarrow> 'y \<Rightarrow> rat option \<Rightarrow> failure + rat \<times> rat list" where
  "initial_step solver ctrl t0 t1 y0 dt0 =
     (case ctrl of
        ConstantStepSize \<Rightarrow>
          (case dt0 of
             None \<Rightarrow> Inl MissingInitialStep
           | Some d \<Rightarrow> if d = 0 \<or> d * (t1 - t0) < 0 then Inl DirectionMismatch else Inr (d, []))
      | StepTo ts \<Rightarrow>
          (if ts = [] \<or> hd ts \<noteq> t0 \<or> last ts \<noteq> t1 then Inl GridMismatch
           else Inr (next_gap t0 (tl ts) 0, tl ts))
      | PIDController p \<Rightarrow>
          (if \<not> supports_adaptive solver then Inl ControllerSolverMismatch
           else case dt0 of
             None \<Rightarrow> Inr (initial_dt p t0 t1 y0, [])
           | Some d \<Rightarrow> if d = 0 \<or> d * (t1 - t0) < 0 then Inl DirectionMismatch else Inr (d, [])))"

text \<open>
  Modelled from the spec: the entry contract \<^verbatim>\<open>solve\<close> of section 6, returning the final
  loop state, which holds the accepted steps and the statistics.
\<close>

definition solve ::
  "'y solver \<Rightarrow> 'y controller \<Rightarrow> rat \<Rightarrow> rat \<Rightarrow> 'y \<Rightarrow> rat option \<Rightarrow> nat \<Rightarrow> 'y loop_state" where
  "solve solver ctrl t0 t1 y0 dt0 max_steps =
     (let s0 = \<lparr>tprev = t0, ycur = y0, dtcur = 0, grid_ahead = [], status = RUNNING,
                 num_accepted_steps = 0, num_rejected_steps = 0, accepted = []\<rparr>
      in case initial_step solver ctrl t0 t1 y0 dt0 of
           Inl f \<Rightarrow> s0\<lparr>status := FAILED f\<rparr>
         | Inr (d, g) \<Rightarrow>
             run max_steps solver ctrl t0 t1
               (s0\<lparr>dtcur := d, grid_ahead := g, status := (if t0 = t1 then DONE else RUNNING)\<rparr>))"

text \<open>
  Modelled from the spec: the step count \<open>ceil(|t1 - t0| / |dt0|)\<close> of section 8.
\<close>

definition num_steps :: "rat \<Rightarrow> rat \<Rightarrow> rat \<Rightarrow> nat" where
  "num_steps t0 t1 dt0 = nat \<lceil>\<bar>t1 - t0\<bar> / \<bar>dt0\<bar>\<rceil>"

text \<open>
  Modelled from the spec: the grid of a step-to controller that uses the fixed step size
  \<open>dt0\<close>: the points \<open>t0, t0 + dt0, t0 + 2 dt0, ...\<close> before \<open>t1\<close>, and \<open>t1\<close>.
\<close>

definition uniform_grid :: "rat \<Rightarrow> rat \<Rightarrow> rat \<Rightarrow> rat list" where
  "uniform_grid t0 t1 dt0 = map (\<lambda>k. t0 + of_nat k * dt0) [0 ..< num_steps t0 t1 dt0] @ [t1]"

text \<open>
  Modelled from the spec: the explicit Euler scheme on a scalar state, the simplest of the
  explicit family of section 4.3; it has no error estimate.
\<close>

definition euler :: "(rat \<Rightarrow> rat \<Rightarrow> rat) \<Rightarrow> rat solver" where
  "euler f = \<lparr>step = (\<lambda>a b v. Candidate (v + (b - a) * f a v) None), supports_adaptive = False\<rparr>"



text \<open>
  Modelled from the spec: a PID controller on a scalar state with absolute and relative
  tolerance, for which the specification gives the scaled error
  \<open>|error| / (atol + rtol max(|y0|, |y1|))\<close>; the step factor is clamped between \<open>1/5\<close>
  and \<open>10\<close>, and a step that could not be computed is halved.
\<close>

definition scalar_pid :: "rat \<Rightarrow> rat \<Rightarrow> rat pid" where
  "scalar_pid atol rtol =
     \<lparr>scaled_error = (\<lambda>y0 y1 e. \<bar>e\<bar> / (atol + rtol * max \<bar>y0\<bar> \<bar>y1\<bar>)),
      factor = (\<lambda>sc. if sc = 0 then 10 else max (1 / 5) (min 10 (9 / 10 / sc))),
      shrink = 1 / 2,
      dtmin = 1 / 1000000,
      initial_dt = (\<lambda>t0 t1 y0. (t1 - t0) / 100)\<rparr>"

text \<open>
  Modelled from the spec: how an input of the solve (\<open>t0\<close>, \<open>t1\<close> or \<open>dt0\<close>) is known
  when the solve is traced (section 9 of the specification): as a constant; not at all,
  being an argument of a \<^verbatim>\<open>jit\<close>-compiled function, as in lines 349 to 380 of
  \<^verbatim>\<open>test_integrate.py\<close>; or as a constant array that \<^verbatim>\<open>vmap\<close> maps the solve over, as
  in its lines 385 to 431.
\<close>

datatype 'a input = Static 'a | Traced | Batched "'a list"

text \<open>
  Modelled from the spec: the entry \<^verbatim>\<open>compiled_num_steps\<close> of the statistics: \<^verbatim>\<open>None\<close>,
  a number, or under \<^verbatim>\<open>vmap\<close> an array of numbers, one for each element of the batch.
\<close>

datatype step_count = Unavailable | Known nat | KnownBatch "nat list"

fun is_traced :: "'a input \<Rightarrow> bool" where
  "is_traced Traced = True"
| "is_traced _ = False"

fun batch_size :: "'a input \<Rightarrow> nat option" where
  "batch_size (Batched vs) = Some (length vs)"
| "batch_size _ = None"

fun value_at :: "'a input \<Rightarrow> nat \<Rightarrow> 'a \<Rightarrow> 'a" where
  "value_at (Static v) i d = v"
| "value_at (Batched vs) i d = (if i < length vs then vs ! i else d)"
| "value_at Traced i d = d"

text \<open>
  Modelled from the spec: the sizes of the batched inputs among \<open>t0\<close>, \<open>t1\<close> and \<open>dt0\<close>,
  and whether one of them is traced.
\<close>

definition batch_sizes :: "rat input \<Rightarrow> rat input \<Rightarrow> rat input option \<Rightarrow> nat list" where
  "batch_sizes t0 t1 dt0 =
     remdups (List.map_filter batch_size ([t0, t1] @ (case dt0 of None \<Rightarrow> [] | Some d \<Rightarrow> [d])))"

definition any_traced :: "rat input \<Rightarrow> rat input \<Rightarrow> rat input option \<Rightarrow> bool" where
  "any_traced t0 t1 dt0 =
     (is_traced t0 \<or> is_traced t1 \<or> (case dt0 of None \<Rightarrow> False | Some d \<Rightarrow> is_traced d))"

text \<open>
  Modelled from the spec: the step count of element \<open>i\<close> of a batch, and the largest
  step count of a batch of size \<open>b\<close>.
\<close>

definition element_count :: "rat input \<Rightarrow> rat input \<Rightarrow> rat input \<Rightarrow> nat \<Rightarrow> nat" where
  "element_count t0 t1 d i = num_steps (value_at t0 i 0) (value_at t1 i 0) (value_at d i 0)"

definition largest_count :: "rat input \<Rightarrow> rat input \<Rightarrow> rat input \<Rightarrow> nat \<Rightarrow> nat" where
  "largest_count t0 t1 d b = fold max (map (element_count t0 t1 d) [0 ..< b]) 0"

text \<open>
  Modelled from the spec: the step count that is known when the solve is traced
  (sections 6 and 9): none with the adaptive controller, with a missing \<open>dt0\<close> under the
  constant controller, or when an input is traced; the number of grid gaps with the
  step-to controller; \<open>ceil(|t1 - t0| / |dt0|)\<close> with the constant controller. The code
  that computes it is not among the sources; for inputs batched by \<^verbatim>\<open>vmap\<close> the value
  is the one the assertions of \<^verbatim>\<open>test_compile_time_steps\<close> (lines 385 to 431) fix: every
  element of the batch reports the largest count of the batch. Inputs batched with
  different sizes are an error of \<^verbatim>\<open>vmap\<close>.
\<close>

definition compiled_num_steps ::
  "'y controller \<Rightarrow> rat input \<Rightarrow> rat input \<Rightarrow> rat input option \<Rightarrow> py_error + step_count" where
  "compiled_num_steps ctrl t0 t1 dt0 =
     (if length (batch_sizes t0 t1 dt0) > 1 then Inl ValueError
      else if any_traced t0 t1 dt0 then Inr Unavailable
      else
        (case ctrl of
           PIDController p \<Rightarrow> Inr Unavailable
         | StepTo ts \<Rightarrow>
             (case batch_sizes t0 t1 dt0 of
                [] \<Rightarrow> Inr (Known (length ts - 1))
              | b # _ \<Rightarrow> Inr (KnownBatch (replicate b (length ts - 1))))
         | ConstantStepSize \<Rightarrow>
             (case dt0 of
                None \<Rightarrow> Inr Unavailable
              | Some d \<Rightarrow>
                  (case batch_sizes t0 t1 dt0 of
                     [] \<Rightarrow> Inr (Known (element_count t0 t1 d 0))
                   | b # _ \<Rightarrow> Inr (KnownBatch (replicate b (largest_count t0 t1 d b)))))))"

section \<open>Solves over nested containers\<close>





















section \<open>The re-posed problem in mirrored time\<close>








section \<open>Properties of \<^verbatim>\<open>ContainerMeta\<close>\<close>

lemma container_loop_dict_other:
  "k \<notin> fst ` set xs \<Longrightarrow> map_of (fst (container_loop xs d rl i)) k = map_of d k"
  by (induction xs d rl i rule: container_loop.induct) (auto simp: update_conv')

lemma container_loop_lookup_below:
  "j < i \<Longrightarrow> map_of (fst (snd (container_loop xs d rl i))) j = map_of rl j"
  by (induction xs d rl i rule: container_loop.induct) (auto simp: update_conv')

lemma container_loop_tags:
  "distinct (map fst xs) \<Longrightarrow> j < length (non_dunder xs) \<Longrightarrow>
     map_of (fst (container_loop xs d rl i)) (fst (non_dunder xs ! j)) = Some (Tag (i + int j)) \<and>
     map_of (fst (snd (container_loop xs d rl i))) (i + int j) = Some (snd (non_dunder xs ! j))"
proof (induction xs d rl i arbitrary: j rule: container_loop.induct)
  case (1 d rl i)
  then show ?case by (simp add: non_dunder_def)
next
  case (2 key val rest d rl i)
  show ?case
  proof (cases "is_dunder key")
    case True
    with 2 show ?thesis by (simp add: non_dunder_def)
  next
    case False
    note nd = False
    show ?thesis
    proof (cases j)
      case 0
      from 2(3) have "key \<notin> fst ` set rest" by simp
      then show ?thesis
        using nd 0
        by (simp add: non_dunder_def container_loop_dict_other container_loop_lookup_below
            update_conv')
    next
      case (Suc j')
      with 2(4) nd have "j' < length (non_dunder rest)" by (simp add: non_dunder_def)
      moreover from 2(3) have "distinct (map fst rest)" by simp
      ultimately show ?thesis
        using 2(2)[OF nd, of j' ] nd Suc by (simp add: non_dunder_def add.assoc)
    qed
  qed
qed

text \<open>
  Claim C9. A class built by \<^verbatim>\<open>ContainerMeta\<close> from a namespace (a dictionary, so with
  distinct keys) that does not define \<^verbatim>\<open>_reverse_lookup\<close> is built without error; its
  \<open>j\<close>-th non-dunder attribute, in declaration order, is rebound to the integer \<open>j\<close>, and
  indexing the class with \<open>j\<close> returns the value that attribute was declared with, so that
  \<^verbatim>\<open>cls[cls.k] == v\<close>.
\<close>

theorem ContainerMeta_tags_roundtrip:
  assumes "distinct (map fst dict)"
    and "''_reverse_lookup'' \<notin> set (map fst dict)"
  shows "\<exists>cls. ContainerMeta_new name bases dict = Inr cls \<and>
           (\<forall>j < length (non_dunder dict).
              getattr cls (fst (non_dunder dict ! j)) = Inr (Tag (int j)) \<and>
              getitem cls (int j) = Inr (snd (non_dunder dict ! j)))"
proof -
  obtain d rl i where loop: "container_loop dict [] [] 0 = (d, rl, i)"
    by (cases "container_loop dict [] [] 0") auto
  let ?cls = "\<lparr>cls_name = name, cls_bases = bases,
                cls_dict = AList.update ''_reverse_lookup'' (ReverseLookup rl) d\<rparr>"
  have built: "ContainerMeta_new name bases dict = Inr ?cls"
    using assms(2) loop by (simp add: ContainerMeta_new_def)
  have rl: "getattr ?cls ''_reverse_lookup'' = Inr (ReverseLookup rl)"
    by (simp add: getattr_def update_conv')
  have "getattr ?cls (fst (non_dunder dict ! j)) = Inr (Tag (int j)) \<and>
        getitem ?cls (int j) = Inr (snd (non_dunder dict ! j))"
    if j: "j < length (non_dunder dict)" for j
  proof -
    have "non_dunder dict ! j \<in> set dict"
      using j nth_mem[OF j] by (auto simp: non_dunder_def)
    then have "fst (non_dunder dict ! j) \<in> set (map fst dict)" by simp
    with assms(2) have ne: "fst (non_dunder dict ! j) \<noteq> ''_reverse_lookup''" by metis
    from container_loop_tags[OF assms(1) j, of "[]" "[]" 0] loop
    have "map_of d (fst (non_dunder dict ! j)) = Some (Tag (int j))"
      and "map_of rl (int j) = Some (snd (non_dunder dict ! j))" by simp_all
    then show ?thesis
      using ne rl by (simp add: getattr_def getitem_def update_conv')
  qed
  with built show ?thesis by blast
qed

theorem ContainerMeta_tags_roundtrip_witness:
  "\<exists>cls. ContainerMeta_new ''Kind'' [] [(''__module__'', 7), (''first'', 10), (''__doc__'', 8), (''second'', 20::int)] = Inr cls \<and>
      getattr cls ''first'' = Inr (Tag 0) \<and> getitem cls 0 = Inr 10 \<and>
      getattr cls ''second'' = Inr (Tag 1) \<and> getitem cls 1 = Inr 20"
proof -
  let ?dict = "[(''__module__'', 7), (''first'', 10), (''__doc__'', 8), (''second'', 20::int)]"
  have nd: "non_dunder ?dict = [(''first'', 10), (''second'', 20)]"
    by (simp add: non_dunder_def is_dunder_def startswith_def endswith_def)
  have "distinct (map fst ?dict)" and "''_reverse_lookup'' \<notin> set (map fst ?dict)"
    by simp_all
  from ContainerMeta_tags_roundtrip[OF this, of "''Kind''" "[]"]
  obtain cls where built: "ContainerMeta_new ''Kind'' [] ?dict = Inr cls"
    and tags: "\<forall>j < length (non_dunder ?dict).
              getattr cls (fst (non_dunder ?dict ! j)) = Inr (Tag (int j)) \<and>
              getitem cls (int j) = Inr (snd (non_dunder ?dict ! j))"
    by blast
  from tags[rule_format, of 0] have "getattr cls ''first'' = Inr (Tag 0) \<and> getitem cls 0 = Inr 10"
    unfolding nd by simp
  moreover from tags[rule_format, of 1] have "getattr cls ''second'' = Inr (Tag 1) \<and> getitem cls 1 = Inr 20"
    unfolding nd by simp
  ultimately show ?thesis using built by blast
qed

section \<open>Properties of \<^verbatim>\<open>fill_forward\<close>\<close>

lemma scan_Cons_snd:
  "snd (scan f init (x # xs)) = snd (f init x) # snd (scan f (fst (f init x)) xs)"
  by (simp add: case_prod_unfold)

lemma scan_length: "length (snd (scan f init xs)) = length xs"
  by (induction xs arbitrary: init) (simp_all add: scan_Cons_snd del: scan.simps(2))

lemma fill_forward_inner_fill:
  "fst (fill_forward_inner prev yi) = fill prev yi" "snd (fill_forward_inner prev yi) = fill prev yi"
  by (simp_all add: fill_forward_inner_def fill_def Let_def)

lemma scan_fill_0: "snd (scan fill_forward_inner init (y # ys)) ! 0 = fill init y"
  by (simp add: scan_Cons_snd fill_forward_inner_fill del: scan.simps(2))

lemma scan_fill_Suc:
  "Suc i < length ys \<Longrightarrow>
     snd (scan fill_forward_inner init ys) ! Suc i =
       fill (snd (scan fill_forward_inner init ys) ! i) (ys ! Suc i)"
proof (induction ys arbitrary: init i)
  case Nil
  then show ?case by simp
next
  case (Cons y ys)
  show ?case
  proof (cases i)
    case 0
    with Cons.prems obtain z zs where ys: "ys = z # zs" by (cases ys) auto
    show ?thesis using 0 unfolding ys
      by (simp add: scan_Cons_snd fill_forward_inner_fill del: scan.simps(2))
  next
    case (Suc i')
    with Cons.prems have "Suc i' < length ys" by simp
    from Cons.IH[OF this, of "fill init y"] show ?thesis using Suc
      by (simp add: scan_Cons_snd fill_forward_inner_fill del: scan.simps(2))
  qed
qed

lemma fill_length: "length prev = length yi \<Longrightarrow> length (fill prev yi) = length yi"
  by (simp add: fill_def where3_def)

lemma fill_nth:
  "length prev = length yi \<Longrightarrow> c < length yi \<Longrightarrow>
     fill prev yi ! c = (if isnan (yi ! c) then prev ! c else yi ! c)"
  by (simp add: fill_def where3_def)


lemma scan_fill_row_length:
  assumes "rows_of_length n ys" and "length init = n"
  shows "i < length ys \<Longrightarrow> length (snd (scan fill_forward_inner init ys) ! i) = n"
proof (induction i)
  case 0
  then obtain y rest where ys: "ys = y # rest" by (cases ys) auto
  with assms show ?case by (simp add: scan_fill_0 fill_length rows_of_length_def del: scan.simps(2))
next
  case (Suc i)
  then have "length (snd (scan fill_forward_inner init ys) ! i) = n" by simp
  moreover from assms(1) Suc.prems have "length (ys ! Suc i) = n"
    by (simp add: rows_of_length_def)
  ultimately show ?case using Suc.prems by (simp add: scan_fill_Suc fill_length)
qed

lemma scan_fill_entry_0:
  assumes "rows_of_length n ys" and "length init = n" and "ys \<noteq> []" and "c < n"
  shows "snd (scan fill_forward_inner init ys) ! 0 ! c =
           (if isnan (ys ! 0 ! c) then init ! c else ys ! 0 ! c)"
proof -
  from assms(3) obtain y rest where ys: "ys = y # rest" by (cases ys) auto
  with assms(1) have "length y = n" by (simp add: rows_of_length_def)
  with assms(2,4) show ?thesis unfolding ys
    by (simp add: scan_fill_0 fill_nth del: scan.simps(2))
qed

lemma scan_fill_entry_Suc:
  assumes "rows_of_length n ys" and "length init = n" and "Suc i < length ys" and "c < n"
  shows "snd (scan fill_forward_inner init ys) ! Suc i ! c =
           (if isnan (ys ! Suc i ! c) then snd (scan fill_forward_inner init ys) ! i ! c
            else ys ! Suc i ! c)"
proof -
  from assms(1,3) have "length (ys ! Suc i) = n" by (simp add: rows_of_length_def)
  moreover from assms(3) have "i < length ys" by simp
  from scan_fill_row_length[OF assms(1,2) this]
  have "length (snd (scan fill_forward_inner init ys) ! i) = n" .
  ultimately show ?thesis using assms(3,4) by (simp add: scan_fill_Suc fill_nth)
qed

lemma scan_fill_keeps_observed:
  assumes "rows_of_length n ys" and "length init = n" and "i < length ys" and "c < n"
    and "\<not> isnan (ys ! i ! c)"
  shows "snd (scan fill_forward_inner init ys) ! i ! c = ys ! i ! c"
proof (cases i)
  case 0
  with assms show ?thesis by (simp add: scan_fill_entry_0[OF assms(1,2) _ assms(4)])
next
  case (Suc i')
  with assms show ?thesis by (simp add: scan_fill_entry_Suc[OF assms(1,2) _ assms(4)])
qed

lemma scan_fill_most_recent:
  assumes "rows_of_length n ys" and "length init = n" and "c < n"
    and "\<not> isnan (ys ! j ! c)"
  shows "j \<le> i \<Longrightarrow> i < length ys \<Longrightarrow> (\<forall>k. j < k \<and> k \<le> i \<longrightarrow> isnan (ys ! k ! c)) \<Longrightarrow>
           snd (scan fill_forward_inner init ys) ! i ! c = ys ! j ! c"
proof (induction i)
  case 0
  then have "j = 0" by simp
  with 0 assms show ?case by (simp add: scan_fill_keeps_observed[OF assms(1,2) _ assms(3)])
next
  case (Suc i)
  show ?case
  proof (cases "j = Suc i")
    case True
    with Suc.prems assms(4) show ?thesis
      by (simp add: scan_fill_keeps_observed[OF assms(1,2) _ assms(3)])
  next
    case False
    with Suc.prems have ji: "j \<le> i" and nan: "isnan (ys ! Suc i ! c)" by auto
    from Suc.prems have "\<forall>k. j < k \<and> k \<le> i \<longrightarrow> isnan (ys ! k ! c)" by simp
    with Suc.IH ji Suc.prems(2)
    have "snd (scan fill_forward_inner init ys) ! i ! c = ys ! j ! c" by simp
    with nan Suc.prems(2) show ?thesis
      by (simp add: scan_fill_entry_Suc[OF assms(1,2) _ assms(3)])
  qed
qed

lemma scan_fill_never_observed:
  assumes "rows_of_length n ys" and "length init = n" and "c < n"
  shows "i < length ys \<Longrightarrow> (\<forall>k \<le> i. isnan (ys ! k ! c)) \<Longrightarrow>
           snd (scan fill_forward_inner init ys) ! i ! c = init ! c"
proof (induction i)
  case 0
  then have "ys \<noteq> []" by auto
  from scan_fill_entry_0[OF assms(1,2) this assms(3)] 0 show ?case by simp
next
  case (Suc i)
  then have "snd (scan fill_forward_inner init ys) ! i ! c = init ! c" by simp
  with Suc.prems show ?case
    by (simp add: scan_fill_entry_Suc[OF assms(1,2) _ assms(3)])
qed

lemma fill_same: "fill y y = y"
  by (induction y) (simp_all add: fill_def where3_def)

text \<open>
  Claim C8. For an array \<open>ys\<close> of shape \<open>(times, channels)\<close> with at least one row (the
  first row the claim speaks of), \<^verbatim>\<open>fill_forward\<close> returns an array of the same shape;
  its first row is the first row of \<open>ys\<close>; its entry \<open>(i, c)\<close> is \<open>ys[i, c]\<close> when that
  is not NaN, and otherwise the entry \<open>ys[j, c]\<close> of the last row \<open>j < i\<close> whose entry in
  channel \<open>c\<close> is not NaN, or NaN when there is no such row.
\<close>

theorem fill_forward_fills_forward:
  assumes "ys \<noteq> []" and "rows_of_length channels ys"
  shows "\<exists>out. fill_forward ys = Inr out \<and>
           length out = length ys \<and> rows_of_length channels out \<and>
           out ! 0 = ys ! 0 \<and>
           (\<forall>i < length ys. \<forall>c < channels.
              (\<not> isnan (ys ! i ! c) \<longrightarrow> out ! i ! c = ys ! i ! c) \<and>
              (isnan (ys ! i ! c) \<longrightarrow>
                 (\<forall>j < i. \<not> isnan (ys ! j ! c) \<and> (\<forall>k. j < k \<and> k < i \<longrightarrow> isnan (ys ! k ! c))
                    \<longrightarrow> out ! i ! c = ys ! j ! c) \<and>
                 ((\<forall>j < i. isnan (ys ! j ! c)) \<longrightarrow> out ! i ! c = NaN)))"
proof -
  from assms(1) obtain y0 rest where ys: "ys = y0 # rest" by (cases ys) auto
  let ?out = "snd (scan fill_forward_inner y0 ys)"
  have init: "length y0 = channels" using assms(2) ys by (simp add: rows_of_length_def)
  have y0: "y0 = ys ! 0" by (simp add: ys)
  have res: "fill_forward ys = Inr ?out" by (simp add: fill_forward_def ys)
  have len: "length ?out = length ys" by (rule scan_length)
  have rect: "rows_of_length channels ?out"
    unfolding rows_of_length_def
  proof
    fix r assume "r \<in> set ?out"
    then obtain i where "i < length ?out" "r = ?out ! i" by (auto simp: in_set_conv_nth)
    with scan_fill_row_length[OF assms(2) init, of i] len show "length r = channels" by simp
  qed
  have first: "?out ! 0 = ys ! 0"
    unfolding ys by (simp add: scan_fill_0 fill_same del: scan.simps(2))
  have entries: "(\<not> isnan (ys ! i ! c) \<longrightarrow> ?out ! i ! c = ys ! i ! c) \<and>
              (isnan (ys ! i ! c) \<longrightarrow>
                 (\<forall>j < i. \<not> isnan (ys ! j ! c) \<and> (\<forall>k. j < k \<and> k < i \<longrightarrow> isnan (ys ! k ! c))
                    \<longrightarrow> ?out ! i ! c = ys ! j ! c) \<and>
                 ((\<forall>j < i. isnan (ys ! j ! c)) \<longrightarrow> ?out ! i ! c = NaN))"
    if i: "i < length ys" and c: "c < channels" for i c
  proof (intro conjI impI allI)
    assume "\<not> isnan (ys ! i ! c)"
    then show "?out ! i ! c = ys ! i ! c"
      by (rule scan_fill_keeps_observed[OF assms(2) init i c])
  next
    fix j
    assume nan: "isnan (ys ! i ! c)" and j: "j < i"
      and recent: "\<not> isnan (ys ! j ! c) \<and> (\<forall>k. j < k \<and> k < i \<longrightarrow> isnan (ys ! k ! c))"
    from nan recent have "\<forall>k. j < k \<and> k \<le> i \<longrightarrow> isnan (ys ! k ! c)"
      by (auto simp: le_less)
    with scan_fill_most_recent[OF assms(2) init c, of j i] recent j i
    show "?out ! i ! c = ys ! j ! c" by simp
  next
    assume nan: "isnan (ys ! i ! c)" and all: "\<forall>j < i. isnan (ys ! j ! c)"
    then have allle: "\<forall>k \<le> i. isnan (ys ! k ! c)" by (auto simp: le_less)
    then have "isnan (ys ! 0 ! c)" by simp
    with scan_fill_never_observed[OF assms(2) init c i allle] y0
    show "?out ! i ! c = NaN" by (simp add: isnan_def)
  qed
  from res len rect first entries show ?thesis by blast
qed

theorem fill_forward_fills_forward_witness:
  "\<exists>out. fill_forward [[NaN, Num 1], [Num 2, NaN], [NaN, NaN :: int float]] = Inr out \<and>
     length out = 3 \<and> out ! 0 = [NaN, Num 1] \<and>
     out ! 1 ! 0 = Num 2 \<and> out ! 1 ! 1 = Num 1 \<and> out ! 2 ! 0 = Num 2 \<and> out ! 2 ! 1 = Num 1"
proof -
  let ?ys = "[[NaN, Num 1], [Num 2, NaN], [NaN, NaN :: int float]]"
  have "?ys \<noteq> []" and "rows_of_length 2 ?ys" by (simp_all add: rows_of_length_def)
  from fill_forward_fills_forward[OF this]
  obtain out where res: "fill_forward ?ys = Inr out" and len: "length out = length ?ys"
    and first: "out ! 0 = ?ys ! 0"
    and entries: "\<forall>i < length ?ys. \<forall>c < 2.
              (\<not> isnan (?ys ! i ! c) \<longrightarrow> out ! i ! c = ?ys ! i ! c) \<and>
              (isnan (?ys ! i ! c) \<longrightarrow>
                 (\<forall>j < i. \<not> isnan (?ys ! j ! c) \<and> (\<forall>k. j < k \<and> k < i \<longrightarrow> isnan (?ys ! k ! c))
                    \<longrightarrow> out ! i ! c = ?ys ! j ! c) \<and>
                 ((\<forall>j < i. isnan (?ys ! j ! c)) \<longrightarrow> out ! i ! c = NaN))"
    by blast
  note recent = entries[rule_format, THEN conjunct2, rule_format, THEN conjunct1, rule_format]
  from entries[rule_format, of 1 0] have e10: "out ! 1 ! 0 = Num 2" by (simp add: isnan_def)
  have "\<forall>k::nat. 0 < k \<and> k < 1 \<longrightarrow> isnan (?ys ! k ! 1)"
  proof (intro allI impI)
    fix k :: nat assume "0 < k \<and> k < 1"
    then have False by arith
    then show "isnan (?ys ! k ! 1)" ..
  qed
  with recent[of 1 1 0] have e11: "out ! 1 ! 1 = Num 1" by (simp add: isnan_def)
  have "\<forall>k::nat. 1 < k \<and> k < 2 \<longrightarrow> isnan (?ys ! k ! 0)"
  proof (intro allI impI)
    fix k :: nat assume "1 < k \<and> k < 2"
    then have False by arith
    then show "isnan (?ys ! k ! 0)" ..
  qed
  with recent[of 2 0 1] have e20: "out ! 2 ! 0 = Num 2" by (simp add: isnan_def)
  have "\<forall>k. 0 < k \<and> k < 2 \<longrightarrow> isnan (?ys ! k ! 1)"
  proof (intro allI impI)
    fix k :: nat assume "0 < k \<and> k < 2"
    then have "k = 1" by arith
    then show "isnan (?ys ! k ! 1)" by (simp add: isnan_def)
  qed
  with recent[of 2 1 0] have e21: "out ! 2 ! 1 = Num 1" by (simp add: isnan_def)
  from res len first e10 e11 e20 e21 show ?thesis by simp
qed

lemma fill_forward_no_rows: "fill_forward [] = Inl IndexError"
  by (simp add: fill_forward_def)

section \<open>Properties of \<^verbatim>\<open>stack_pytrees\<close>\<close>

lemma tree_leaves_length: "length (tree_leaves t) = num_leaves (tree_structure t)"
proof (induction t)
  case (Leaf x)
  show ?case by simp
next
  case (Node k ts)
  then have "map (length \<circ> tree_leaves) ts = map (num_leaves \<circ> tree_structure) ts"
    by simp
  from arg_cong[OF this, of sum_list] show ?case by (simp add: length_concat)
qed

lemma flatten_up_to_children_same:
  "(\<And>t. t \<in> set ts \<Longrightarrow> flatten_up_to (tree_structure t) t = Inr (map Leaf (tree_leaves t))) \<Longrightarrow>
     flatten_up_to_children (map tree_structure ts) ts = Inr (map Leaf (concat (map tree_leaves ts)))"
  by (induction ts) simp_all

lemma flatten_up_to_same:
  "flatten_up_to (tree_structure t) t = Inr (map Leaf (tree_leaves t))"
proof (induction t)
  case (Leaf x)
  show ?case by simp
next
  case (Node k ts)
  then show ?case by (simp add: flatten_up_to_children_same)
qed

lemma unflatten_structure:
  "tree_structure (unflatten td xs) = td"
  "map tree_structure (unflatten_children ds xs) = ds"
  by (induction td xs and ds xs rule: unflatten_unflatten_children.induct) simp_all

lemma unflatten_leaves:
  "length xs = num_leaves td \<Longrightarrow> tree_leaves (unflatten td xs) = xs"
  "length xs = sum_list (map num_leaves ds) \<Longrightarrow>
     concat (map tree_leaves (unflatten_children ds xs)) = xs"
proof (induction td xs and ds xs rule: unflatten_unflatten_children.induct)
  case (1 xs)
  then show ?case by (cases xs) simp_all
next
  case (2 k ds xs)
  then show ?case by simp
next
  case (3 xs)
  then show ?case by simp
next
  case (4 d ds xs)
  then show ?case by simp
qed

lemma sequence_map_Inr:
  "(\<And>x. x \<in> set xs \<Longrightarrow> f x = Inr (g x)) \<Longrightarrow> sequence (map f xs) = Inr (map g xs)"
  by (induction xs) simp_all

lemma fold_min_same: "\<forall>k \<in> set ks. k = n \<Longrightarrow> fold min ks n = (n::nat)"
  by (induction ks) simp_all

lemma zip_star_same_length:
  assumes "ls \<noteq> []" and "\<And>l. l \<in> set ls \<Longrightarrow> length l = n"
  shows "zip_star ls = map (\<lambda>j. map (\<lambda>xs. xs ! j) ls) [0 ..< n]"
proof -
  from assms(1) obtain l rest where ls: "ls = l # rest" by (cases ls) auto
  with assms(2) have "length l = n" and "\<forall>k \<in> set (map length rest). k = n" by auto
  then have "fold min (map length rest) (length l) = n" by (simp add: fold_min_same)
  then show ?thesis by (simp add: zip_star_def ls)
qed

lemma concat_block:
  "(\<And>x. x \<in> set xss \<Longrightarrow> length x = m) \<Longrightarrow> i < length xss \<Longrightarrow>
     take m (drop (i * m) (concat xss)) = xss ! i"
proof (induction xss arbitrary: i)
  case Nil
  then show ?case by simp
next
  case (Cons x xss)
  then have lx: "length x = m" by simp
  show ?case
  proof (cases i)
    case 0
    with lx show ?thesis by simp
  next
    case (Suc i')
    with Cons.prems have "i' < length xss" by simp
    with Cons.IH[of i'] Cons.prems(1) have "take m (drop (i' * m) (concat xss)) = xss ! i'" by simp
    with lx Suc show ?thesis by (simp add: add.commute)
  qed
qed

lemma concat_same_length:
  "(\<And>x. x \<in> set xss \<Longrightarrow> length x = m) \<Longrightarrow> length (concat xss) = length xss * m"
  by (induction xss) simp_all

lemma jnp_stack_same_shape:
  assumes "arrays \<noteq> []" and "\<And>a. a \<in> set arrays \<Longrightarrow> shape a = sh"
  shows "jnp_stack arrays = Inr \<lparr>shape = length arrays # sh, data = concat (map data arrays)\<rparr>"
proof -
  from assms(1) obtain a rest where arrays: "arrays = a # rest" by (cases arrays) auto
  with assms(2) have "shape a = sh" and "list_all (\<lambda>b. shape b = shape a) rest"
    by (auto simp: list_all_iff)
  then show ?thesis by (simp add: jnp_stack_def arrays)
qed

lemma index0_stacked:
  assumes "\<And>a. a \<in> set arrays \<Longrightarrow> shape a = sh \<and> wf_ndarray a" and "i < length arrays"
  shows "index0 \<lparr>shape = length arrays # sh, data = concat (map data arrays)\<rparr> i = arrays ! i"
proof -
  have "\<And>x. x \<in> set (map data arrays) \<Longrightarrow> length x = prod_list sh"
    using assms(1) by (auto simp: wf_ndarray_def)
  from concat_block[of "map data arrays" "prod_list sh" i, OF this] assms(2)
  have "take (prod_list sh) (drop (i * prod_list sh) (concat (map data arrays))) = data (arrays ! i)"
    by simp
  moreover from assms have "shape (arrays ! i) = sh" by simp
  ultimately show ?thesis by (simp add: index0_def)
qed

lemma wf_stacked:
  assumes "\<And>a. a \<in> set arrays \<Longrightarrow> shape a = sh \<and> wf_ndarray a"
  shows "wf_ndarray \<lparr>shape = length arrays # sh, data = concat (map data arrays)\<rparr>"
proof -
  have "\<And>x. x \<in> set (map data arrays) \<Longrightarrow> length x = prod_list sh"
    using assms(1) by (auto simp: wf_ndarray_def)
  from concat_same_length[of "map data arrays" "prod_list sh", OF this]
  show ?thesis by (simp add: wf_ndarray_def)
qed


lemma stack_pytrees_inner_leaves:
  assumes "pytrees \<noteq> []"
    and "\<And>t. t \<in> set pytrees \<Longrightarrow> shape (tree_leaves t ! j) = shape (tree_leaves (hd pytrees) ! j)"
  shows "stack_pytrees_inner (map (\<lambda>t. Leaf (tree_leaves t ! j)) pytrees) = Inr (stacked_leaf pytrees j)"
proof -
  have "sequence (map as_array (map (\<lambda>t. Leaf (tree_leaves t ! j)) pytrees)) =
          Inr (map (\<lambda>t. tree_leaves t ! j) pytrees)"
    unfolding map_map by (rule sequence_map_Inr) simp
  moreover have "jnp_stack (map (\<lambda>t. tree_leaves t ! j) pytrees) = Inr (stacked_leaf pytrees j)"
    unfolding stacked_leaf_def length_map[of "\<lambda>t. tree_leaves t ! j" pytrees, symmetric]
  proof (rule jnp_stack_same_shape)
    show "map (\<lambda>t. tree_leaves t ! j) pytrees \<noteq> []" using assms(1) by simp
  next
    fix a assume "a \<in> set (map (\<lambda>t. tree_leaves t ! j) pytrees)"
    then obtain t where "t \<in> set pytrees" and "a = tree_leaves t ! j" by auto
    with assms(2) show "shape a = shape (tree_leaves (hd pytrees) ! j)" by blast
  qed
  ultimately show ?thesis by (simp add: stack_pytrees_inner_def)
qed

lemma stack_pytrees_result:
  assumes ne: "pytrees \<noteq> []"
    and td: "\<And>t. t \<in> set pytrees \<Longrightarrow> tree_structure t = td"
    and sh: "\<And>t j. t \<in> set pytrees \<Longrightarrow> j < num_leaves td \<Longrightarrow>
               shape (tree_leaves t ! j) = shape (tree_leaves (hd pytrees) ! j)"
  shows "stack_pytrees pytrees =
           Inr (unflatten td (map (stacked_leaf pytrees) [0 ..< num_leaves td]))"
proof -
  from ne obtain tree rest where pytrees: "pytrees = tree # rest" by (cases pytrees) auto
  let ?n = "num_leaves td"
  let ?all = "map (\<lambda>t. map Leaf (tree_leaves t)) pytrees"
  have tree: "tree_structure tree = td" using td pytrees by simp
  have len: "length (tree_leaves t) = ?n" if "t \<in> set pytrees" for t
    using td[OF that] tree_leaves_length[of t] by simp
  have flat: "tree_flatten tree = (tree_leaves tree, td)"
    by (simp add: tree_flatten_def tree)
  have rest: "sequence (map (flatten_up_to td) rest) =
                Inr (map (\<lambda>t. map Leaf (tree_leaves t)) rest)"
  proof (rule sequence_map_Inr)
    fix t assume "t \<in> set rest"
    then have "tree_structure t = td" using td pytrees by simp
    with flatten_up_to_same[of t] show "flatten_up_to td t = Inr (map Leaf (tree_leaves t))"
      by simp
  qed
  have all: "map Leaf (tree_leaves tree) # map (\<lambda>t. map Leaf (tree_leaves t)) rest = ?all"
    by (simp add: pytrees)
  have "?all \<noteq> []" using ne by simp
  moreover have "\<And>l. l \<in> set ?all \<Longrightarrow> length l = ?n" using len by auto
  ultimately have zs: "zip_star ?all = map (\<lambda>j. map (\<lambda>xs. xs ! j) ?all) [0 ..< ?n]"
    by (rule zip_star_same_length)
  have col: "map (\<lambda>t. map Leaf (tree_leaves t) ! j) pytrees =
               map (\<lambda>t. Leaf (tree_leaves t ! j)) pytrees"
    if "j < ?n" for j
    using that len by simp
  have "map stack_pytrees_inner (zip_star ?all) =
          map (\<lambda>j. stack_pytrees_inner (map (\<lambda>t. Leaf (tree_leaves t ! j)) pytrees)) [0 ..< ?n]"
    unfolding zs by (simp only: map_map comp_def) (rule map_cong, simp, simp add: col)
  moreover have "sequence (map (\<lambda>j. stack_pytrees_inner (map (\<lambda>t. Leaf (tree_leaves t ! j)) pytrees))
                    [0 ..< ?n]) = Inr (map (stacked_leaf pytrees) [0 ..< ?n])"
  proof (rule sequence_map_Inr)
    fix j assume "j \<in> set [0 ..< ?n]"
    then have j: "j < ?n" by simp
    show "stack_pytrees_inner (map (\<lambda>t. Leaf (tree_leaves t ! j)) pytrees) =
            Inr (stacked_leaf pytrees j)"
      by (rule stack_pytrees_inner_leaves[OF ne]) (rule sh[OF _ j])
  qed
  ultimately have "sequence (map stack_pytrees_inner (zip_star ?all)) =
          Inr (map (stacked_leaf pytrees) [0 ..< ?n])" by simp
  then have "tree_map stack_pytrees_inner tree rest =
               treedef_unflatten td (map (stacked_leaf pytrees) [0 ..< ?n])"
    unfolding tree_map_def flat by (simp only: rest all prod.case sum.case)
  then show ?thesis by (simp add: stack_pytrees_def pytrees treedef_unflatten_def)
qed

text \<open>
  Claim C10. For a non-empty list of pytrees that all have the treedef \<open>td\<close> and whose
  leaves at each position are arrays of one shape, \<^verbatim>\<open>stack_pytrees\<close> returns a pytree
  of treedef \<open>td\<close>; its leaf at position \<open>j\<close> has a new leading axis whose length is the
  number of input pytrees, and its \<open>i\<close>-th slice along that axis is the leaf at position
  \<open>j\<close> of the \<open>i\<close>-th input pytree.
\<close>

theorem stack_pytrees_structure_and_leaves:
  assumes "pytrees \<noteq> []"
    and "\<forall>t \<in> set pytrees. tree_structure t = td"
    and "\<forall>t \<in> set pytrees. \<forall>j < num_leaves td.
           wf_ndarray (tree_leaves t ! j) \<and>
           shape (tree_leaves t ! j) = shape (tree_leaves (hd pytrees) ! j)"
  shows "\<exists>out. stack_pytrees pytrees = Inr out \<and> tree_structure out = td \<and>
           length (tree_leaves out) = num_leaves td \<and>
           (\<forall>j < num_leaves td.
              shape (tree_leaves out ! j) = length pytrees # shape (tree_leaves (hd pytrees) ! j) \<and>
              wf_ndarray (tree_leaves out ! j) \<and>
              (\<forall>i < length pytrees. index0 (tree_leaves out ! j) i = tree_leaves (pytrees ! i) ! j))"
proof -
  let ?n = "num_leaves td"
  let ?out = "unflatten td (map (stacked_leaf pytrees) [0 ..< ?n])"
  have res: "stack_pytrees pytrees = Inr ?out"
  proof (rule stack_pytrees_result)
    show "pytrees \<noteq> []" by (rule assms(1))
  next
    fix t assume "t \<in> set pytrees"
    with assms(2) show "tree_structure t = td" by blast
  next
    fix t j assume "t \<in> set pytrees" and "j < ?n"
    with assms(3) show "shape (tree_leaves t ! j) = shape (tree_leaves (hd pytrees) ! j)"
      by blast
  qed
  have struct: "tree_structure ?out = td" by (rule unflatten_structure)
  have leaves: "tree_leaves ?out = map (stacked_leaf pytrees) [0 ..< ?n]"
    by (rule unflatten_leaves) simp
  have len: "length (tree_leaves ?out) = ?n" by (simp add: leaves)
  have entries: "shape (tree_leaves ?out ! j) = length pytrees # shape (tree_leaves (hd pytrees) ! j) \<and>
        wf_ndarray (tree_leaves ?out ! j) \<and>
        (\<forall>i < length pytrees. index0 (tree_leaves ?out ! j) i = tree_leaves (pytrees ! i) ! j)"
    if j: "j < ?n" for j
  proof -
    let ?arrays = "map (\<lambda>t. tree_leaves t ! j) pytrees"
    let ?sh = "shape (tree_leaves (hd pytrees) ! j)"
    have leaf: "tree_leaves ?out ! j = \<lparr>shape = length ?arrays # ?sh, data = concat (map data ?arrays)\<rparr>"
      using j by (simp add: leaves stacked_leaf_def)
    have same: "shape a = ?sh \<and> wf_ndarray a" if "a \<in> set ?arrays" for a
    proof -
      from that obtain t where "t \<in> set pytrees" and "a = tree_leaves t ! j" by auto
      with assms(3) j show ?thesis by blast
    qed
    have "index0 (tree_leaves ?out ! j) i = tree_leaves (pytrees ! i) ! j"
      if "i < length pytrees" for i
      unfolding leaf using index0_stacked[of ?arrays ?sh i, OF same] that by simp
    moreover have "wf_ndarray (tree_leaves ?out ! j)"
      unfolding leaf using same by (rule wf_stacked)
    moreover have "shape (tree_leaves ?out ! j) = length pytrees # ?sh"
      by (simp add: leaf)
    ultimately show ?thesis by blast
  qed
  from res struct len entries show ?thesis by blast
qed

theorem stack_pytrees_structure_and_leaves_witness:
  "\<exists>out. stack_pytrees
            [Node PyTuple [Leaf \<lparr>shape = [2], data = [1, 2 :: int]\<rparr>, Node PyNone [],
                           Leaf \<lparr>shape = [], data = [5]\<rparr>],
             Node PyTuple [Leaf \<lparr>shape = [2], data = [3, 4]\<rparr>, Node PyNone [],
                           Leaf \<lparr>shape = [], data = [6]\<rparr>]] = Inr out \<and>
     tree_structure out = NodeDef PyTuple [LeafDef, NodeDef PyNone [], LeafDef] \<and>
     shape (tree_leaves out ! 0) = [2, 2] \<and>
     index0 (tree_leaves out ! 0) 1 = \<lparr>shape = [2], data = [3, 4]\<rparr> \<and>
     shape (tree_leaves out ! 1) = [2] \<and>
     index0 (tree_leaves out ! 1) 0 = \<lparr>shape = [], data = [5]\<rparr>"
proof -
  let ?a = "Node PyTuple [Leaf \<lparr>shape = [2], data = [1, 2 :: int]\<rparr>, Node PyNone [],
                           Leaf \<lparr>shape = [], data = [5]\<rparr>]"
  let ?b = "Node PyTuple [Leaf \<lparr>shape = [2], data = [3, 4 :: int]\<rparr>, Node PyNone [],
                           Leaf \<lparr>shape = [], data = [6]\<rparr>]"
  let ?td = "NodeDef PyTuple [LeafDef, NodeDef PyNone [], LeafDef]"
  have n: "num_leaves ?td = 2" by simp
  have "[?a, ?b] \<noteq> []" by simp
  moreover have "\<forall>t \<in> set [?a, ?b]. tree_structure t = ?td" by simp
  moreover have "\<forall>t \<in> set [?a, ?b]. \<forall>j < num_leaves ?td.
           wf_ndarray (tree_leaves t ! j) \<and>
           shape (tree_leaves t ! j) = shape (tree_leaves (hd [?a, ?b]) ! j)"
    unfolding n by (simp add: wf_ndarray_def less_Suc_eq numeral_2_eq_2)
  ultimately obtain out where res: "stack_pytrees [?a, ?b] = Inr out"
    and struct: "tree_structure out = ?td"
    and leaves: "\<forall>j < num_leaves ?td.
              shape (tree_leaves out ! j) = length [?a, ?b] # shape (tree_leaves (hd [?a, ?b]) ! j) \<and>
              wf_ndarray (tree_leaves out ! j) \<and>
              (\<forall>i < length [?a, ?b]. index0 (tree_leaves out ! j) i = tree_leaves ([?a, ?b] ! i) ! j)"
    using stack_pytrees_structure_and_leaves[of "[?a, ?b]" ?td] by blast
  from leaves[rule_format, of 0] have "shape (tree_leaves out ! 0) = [2, 2]" by simp
  moreover from leaves[rule_format, of 0, THEN conjunct2, THEN conjunct2, rule_format, of 1]
  have "index0 (tree_leaves out ! 0) 1 = \<lparr>shape = [2], data = [3, 4]\<rparr>" by simp
  moreover from leaves[rule_format, of 1] have "shape (tree_leaves out ! 1) = [2]" by simp
  moreover from leaves[rule_format, of 1, THEN conjunct2, THEN conjunct2, rule_format, of 0]
  have "index0 (tree_leaves out ! 1) 0 = \<lparr>shape = [], data = [5]\<rparr>" by simp
  ultimately show ?thesis using res struct by blast
qed

section \<open>Properties of the integration loop\<close>

lemma same_direction:
  fixes d h :: rat
  assumes "0 < h * d"
  shows "sgn d * d = \<bar>d\<bar>" and "sgn d * h = \<bar>h\<bar>" and "h \<noteq> 0" and "d \<noteq> 0"
proof -
  from assms have "(0 < h \<and> 0 < d) \<or> (h < 0 \<and> d < 0)" by (simp add: zero_less_mult_iff)
  then show "sgn d * d = \<bar>d\<bar>" and "sgn d * h = \<bar>h\<bar>" and "h \<noteq> 0" and "d \<noteq> 0" by auto
qed

lemma reached_iff_num_steps:
  assumes "0 < dt0 * (t1 - t0)"
  shows "reached t0 t1 (t0 + of_nat m * dt0) \<longleftrightarrow> num_steps t0 t1 dt0 \<le> m"
proof -
  note sd = same_direction[OF assms]
  have "sgn (t1 - t0) * (t1 - (t0 + of_nat m * dt0)) =
          sgn (t1 - t0) * (t1 - t0) - of_nat m * (sgn (t1 - t0) * dt0)"
    by (simp add: algebra_simps)
  also have "\<dots> = \<bar>t1 - t0\<bar> - of_nat m * \<bar>dt0\<bar>" by (simp only: sd)
  finally have "reached t0 t1 (t0 + of_nat m * dt0) \<longleftrightarrow> \<bar>t1 - t0\<bar> \<le> of_nat m * \<bar>dt0\<bar>"
    by (simp add: reached_def)
  also have "\<dots> \<longleftrightarrow> \<bar>t1 - t0\<bar> / \<bar>dt0\<bar> \<le> of_nat m"
    using sd(3) by (simp add: pos_divide_le_eq)
  also have "\<dots> \<longleftrightarrow> \<lceil>\<bar>t1 - t0\<bar> / \<bar>dt0\<bar>\<rceil> \<le> int m"
    by (simp add: ceiling_le_iff)
  also have "\<dots> \<longleftrightarrow> num_steps t0 t1 dt0 \<le> m"
    by (simp add: num_steps_def nat_le_iff)
  finally show ?thesis .
qed

lemma reached_end: "reached t0 t1 t1"
  by (simp add: reached_def)

lemma run_stopped: "status s \<noteq> RUNNING \<Longrightarrow> run n solver ctrl t0 t1 s = s"
  by (cases n) simp_all


lemma run_constant:
  assumes dir: "0 < dt0 * (t1 - t0)"
  shows "k < num_steps t0 t1 dt0 \<Longrightarrow> status s = RUNNING \<Longrightarrow>
         tprev s = t0 + of_nat k * dt0 \<Longrightarrow> dtcur s = dt0 \<Longrightarrow> num_accepted_steps s = k \<Longrightarrow>
         (let r = run fuel solver ConstantStepSize t0 t1 s in
            status r \<noteq> RUNNING \<and>
            (status r = DONE \<longrightarrow> num_accepted_steps r = num_steps t0 t1 dt0 \<and> tprev r = t1 \<and>
               num_rejected_steps r = num_rejected_steps s) \<and>
            ((\<forall>a b v. \<exists>y1 e. step solver a b v = Candidate y1 e) \<and> num_steps t0 t1 dt0 - k \<le> fuel
               \<longrightarrow> status r = DONE))"
proof (induction fuel arbitrary: s k)
  case 0
  then show ?case by simp
next
  case (Suc fuel)
  let ?N = "num_steps t0 t1 dt0"
  let ?tnext = "clip_to_end t0 t1 (tprev s + dtcur s)"
  let ?s' = "iteration solver ConstantStepSize t0 t1 s"
  have next_time: "tprev s + dtcur s = t0 + of_nat (Suc k) * dt0"
    using Suc.prems by (simp add: algebra_simps)
  have run: "run (Suc fuel) solver ConstantStepSize t0 t1 s = run fuel solver ConstantStepSize t0 t1 ?s'"
    using Suc.prems by simp
  show ?case
  proof (cases "step solver (tprev s) ?tnext (ycur s)")
    case NotConverged
    then have "?s' = s\<lparr>status := FAILED ImplicitNotConverged\<rparr>"
      by (simp add: iteration_def Let_def)
    moreover have "\<not> (\<forall>a b v. \<exists>y1 e. step solver a b v = Candidate y1 e)"
    proof
      assume "\<forall>a b v. \<exists>y1 e. step solver a b v = Candidate y1 e"
      then obtain y1 e where "step solver (tprev s) ?tnext (ycur s) = Candidate y1 e" by blast
      with NotConverged show False by simp
    qed
    ultimately show ?thesis unfolding run by (simp add: run_stopped Let_def)
  next
    case (Fatal f)
    then have "?s' = s\<lparr>status := FAILED f\<rparr>"
      by (simp add: iteration_def Let_def)
    moreover have "\<not> (\<forall>a b v. \<exists>y1 e. step solver a b v = Candidate y1 e)"
    proof
      assume "\<forall>a b v. \<exists>y1 e. step solver a b v = Candidate y1 e"
      then obtain y1 e where "step solver (tprev s) ?tnext (ycur s) = Candidate y1 e" by blast
      with Fatal show False by simp
    qed
    ultimately show ?thesis unfolding run by (simp add: run_stopped Let_def)
  next
    case (Candidate y1 err)
    then have s': "?s' = accept t0 t1 s ?tnext y1 (dtcur s) (grid_ahead s)"
      by (simp add: iteration_def Let_def)
    show ?thesis
    proof (cases "Suc k < ?N")
      case True
      then have nr: "\<not> reached t0 t1 (tprev s + dtcur s)"
        unfolding next_time reached_iff_num_steps[OF dir] by simp
      then have "?tnext = t0 + of_nat (Suc k) * dt0"
        by (simp add: clip_to_end_def next_time)
      with nr have "status ?s' = RUNNING" "tprev ?s' = t0 + of_nat (Suc k) * dt0" "dtcur ?s' = dt0"
        "num_accepted_steps ?s' = Suc k" "num_rejected_steps ?s' = num_rejected_steps s"
        using Suc.prems by (simp_all add: s' accept_def clip_to_end_def next_time)
      with Suc.IH[OF True, of ?s'] show ?thesis unfolding run by (auto simp: Let_def)
    next
      case False
      with Suc.prems have N: "?N = Suc k" by simp
      then have r: "reached t0 t1 (tprev s + dtcur s)"
        unfolding next_time reached_iff_num_steps[OF dir] by simp
      then have "?tnext = t1" by (simp add: clip_to_end_def)
      then have "status ?s' = DONE" "tprev ?s' = t1" "num_accepted_steps ?s' = ?N"
        "num_rejected_steps ?s' = num_rejected_steps s"
        using Suc.prems N by (simp_all add: s' accept_def reached_end)
      then show ?thesis unfolding run by (simp add: run_stopped Let_def)
    qed
  qed
qed


lemma run_stepto:
  "status s = RUNNING \<Longrightarrow> grid_ahead s = g # gs \<Longrightarrow> dtcur s = g - tprev s \<Longrightarrow>
   sorted_wrt (\<lambda>a b. 0 < sgn (t1 - t0) * (b - a)) (g # gs) \<Longrightarrow> last (g # gs) = t1 \<Longrightarrow>
     (let r = run fuel solver (StepTo ts) t0 t1 s in
        status r \<noteq> RUNNING \<and>
        (status r = DONE \<longrightarrow> num_accepted_steps r = num_accepted_steps s + length (g # gs) \<and>
           tprev r = t1 \<and> num_rejected_steps r = num_rejected_steps s) \<and>
        ((\<forall>a b v. \<exists>y1 e. step solver a b v = Candidate y1 e) \<and> length (g # gs) \<le> fuel
           \<longrightarrow> status r = DONE))"
proof (induction fuel arbitrary: s g gs)
  case 0
  then show ?case by simp
next
  case (Suc fuel)
  let ?tnext = "clip_to_end t0 t1 (tprev s + dtcur s)"
  let ?s' = "iteration solver (StepTo ts) t0 t1 s"
  have next_time: "tprev s + dtcur s = g" using Suc.prems by simp
  have run: "run (Suc fuel) solver (StepTo ts) t0 t1 s = run fuel solver (StepTo ts) t0 t1 ?s'"
    using Suc.prems by simp
  show ?case
  proof (cases "step solver (tprev s) ?tnext (ycur s)")
    case NotConverged
    then have "?s' = s\<lparr>status := FAILED ImplicitNotConverged\<rparr>"
      by (simp add: iteration_def Let_def)
    moreover have "\<not> (\<forall>a b v. \<exists>y1 e. step solver a b v = Candidate y1 e)"
    proof
      assume "\<forall>a b v. \<exists>y1 e. step solver a b v = Candidate y1 e"
      then obtain y1 e where "step solver (tprev s) ?tnext (ycur s) = Candidate y1 e" by blast
      with NotConverged show False by simp
    qed
    ultimately show ?thesis unfolding run by (simp add: run_stopped Let_def)
  next
    case (Fatal f)
    then have "?s' = s\<lparr>status := FAILED f\<rparr>"
      by (simp add: iteration_def Let_def)
    moreover have "\<not> (\<forall>a b v. \<exists>y1 e. step solver a b v = Candidate y1 e)"
    proof
      assume "\<forall>a b v. \<exists>y1 e. step solver a b v = Candidate y1 e"
      then obtain y1 e where "step solver (tprev s) ?tnext (ycur s) = Candidate y1 e" by blast
      with Fatal show False by simp
    qed
    ultimately show ?thesis unfolding run by (simp add: run_stopped Let_def)
  next
    case (Candidate y1 err)
    then have s': "?s' = accept t0 t1 s ?tnext y1 (next_gap ?tnext (tl (grid_ahead s)) (dtcur s)) (tl (grid_ahead s))"
      by (simp add: iteration_def Let_def)
    show ?thesis
    proof (cases gs)
      case Nil
      with Suc.prems have "g = t1" by simp
      then have "?tnext = t1" by (simp add: clip_to_end_def next_time)
      then have "status ?s' = DONE" "tprev ?s' = t1"
        "num_accepted_steps ?s' = num_accepted_steps s + length (g # gs)"
        "num_rejected_steps ?s' = num_rejected_steps s"
        using Nil by (simp_all add: s' accept_def reached_end)
      then show ?thesis unfolding run by (simp add: run_stopped Let_def)
    next
      case (Cons g' gs')
      with Suc.prems have "t1 \<in> set gs" by (metis last.simps last_in_set list.distinct(1))
      with Suc.prems(4) have "0 < sgn (t1 - t0) * (t1 - g)" by simp
      then have nr: "\<not> reached t0 t1 g" by (simp add: reached_def)
      then have tn: "?tnext = g" by (simp add: clip_to_end_def next_time)
      have "status ?s' = RUNNING" "grid_ahead ?s' = g' # gs'" "dtcur ?s' = g' - tprev ?s'"
        "num_accepted_steps ?s' = Suc (num_accepted_steps s)"
        "num_rejected_steps ?s' = num_rejected_steps s"
        using Suc.prems(2) nr Cons unfolding s' tn by (simp_all add: accept_def next_gap_def)
      moreover from Suc.prems(4,5) Cons
      have "sorted_wrt (\<lambda>a b. 0 < sgn (t1 - t0) * (b - a)) (g' # gs')" "last (g' # gs') = t1"
        by simp_all
      ultimately show ?thesis
        using Suc.IH[of ?s' g' gs'] Cons unfolding run by (auto simp: Let_def)
    qed
  qed
qed

lemma num_steps_pos:
  assumes "0 < dt0 * (t1 - t0)"
  shows "0 < num_steps t0 t1 dt0"
proof -
  have "\<not> reached t0 t1 (t0 + of_nat 0 * dt0)"
    using same_direction[OF assms] by (simp add: reached_def)
  then show ?thesis unfolding reached_iff_num_steps[OF assms] by simp
qed

lemma uniform_grid_sorted:
  assumes "0 < dt0 * (t1 - t0)"
  shows "sorted_wrt (\<lambda>a b. 0 < sgn (t1 - t0) * (b - a)) (uniform_grid t0 t1 dt0)"
proof -
  note sd = same_direction[OF assms]
  let ?N = "num_steps t0 t1 dt0"
  have inner: "sorted_wrt (\<lambda>i j. 0 < sgn (t1 - t0) * ((t0 + of_nat j * dt0) - (t0 + of_nat i * dt0)))
                 [0 ..< ?N]"
  proof (rule sorted_wrt_mono_rel[OF _ sorted_wrt_upt])
    fix i j :: nat assume "i < j"
    then have "0 < (of_nat j - of_nat i) * \<bar>dt0\<bar>" using sd(3) by simp
    also have "\<dots> = sgn (t1 - t0) * ((t0 + of_nat j * dt0) - (t0 + of_nat i * dt0))"
      unfolding sd(2)[symmetric] by (simp add: algebra_simps)
    finally show "0 < sgn (t1 - t0) * ((t0 + of_nat j * dt0) - (t0 + of_nat i * dt0))" .
  qed
  have last: "0 < sgn (t1 - t0) * (t1 - (t0 + of_nat i * dt0))" if "i < ?N" for i
  proof -
    from that have "\<not> reached t0 t1 (t0 + of_nat i * dt0)"
      unfolding reached_iff_num_steps[OF assms] by simp
    then show ?thesis by (simp add: reached_def)
  qed
  show ?thesis
    unfolding uniform_grid_def sorted_wrt_append sorted_wrt_map
    using inner last by auto
qed

lemma uniform_grid_Cons:
  assumes "0 < dt0 * (t1 - t0)"
  shows "\<exists>g gs. uniform_grid t0 t1 dt0 = t0 # g # gs"
proof -
  from num_steps_pos[OF assms] obtain n where "num_steps t0 t1 dt0 = Suc n"
    by (cases "num_steps t0 t1 dt0") auto
  then show ?thesis by (cases n) (simp_all add: uniform_grid_def upt_rec)
qed

lemma uniform_grid_length: "length (uniform_grid t0 t1 dt0) = Suc (num_steps t0 t1 dt0)"
  by (simp add: uniform_grid_def)

lemma uniform_grid_last: "last (uniform_grid t0 t1 dt0) = t1"
  by (simp add: uniform_grid_def)


lemma solve_constant:
  assumes "dt0 \<noteq> 0" and "0 \<le> dt0 * (t1 - t0)"
  shows "solve solver ConstantStepSize t0 t1 y0 (Some dt0) max_steps =
           run max_steps solver ConstantStepSize t0 t1
             \<lparr>tprev = t0, ycur = y0, dtcur = dt0, grid_ahead = [], status = (if t0 = t1 then DONE else RUNNING),
              num_accepted_steps = 0, num_rejected_steps = 0, accepted = []\<rparr>"
  using assms by (simp add: solve_def initial_step_def Let_def)

lemma solve_stepto:
  assumes "ts = t0 # rest" and "last ts = t1"
  shows "solve solver (StepTo ts) t0 t1 y0 dt0_arg max_steps =
           run max_steps solver (StepTo ts) t0 t1
             \<lparr>tprev = t0, ycur = y0, dtcur = next_gap t0 rest 0, grid_ahead = rest,
              status = (if t0 = t1 then DONE else RUNNING),
              num_accepted_steps = 0, num_rejected_steps = 0, accepted = []\<rparr>"
  using assms by (simp add: solve_def initial_step_def Let_def)

text \<open>
  Claim C2. A solve with a fixed step size \<open>dt0\<close> in the direction of the solve, under the
  constant controller or under the step-to controller whose grid has that fixed gap, that
  ends in \<^verbatim>\<open>DONE\<close> has accepted exactly \<open>ceil(|t1 - t0| / |dt0|)\<close> steps; it does end in
  \<^verbatim>\<open>DONE\<close> when the solver computes every step and the maximum number of steps is not
  smaller; and for constant \<open>t0\<close>, \<open>t1\<close> and \<open>dt0\<close> that same number is the compiled step
  count of the statistics.
\<close>

theorem step_count_determinism:
  assumes "dt0 \<noteq> 0" and "0 \<le> dt0 * (t1 - t0)"
    and "ctrl = ConstantStepSize \<and> dt0_arg = Some dt0 \<or>
         ctrl = StepTo (uniform_grid t0 t1 dt0) \<and> dt0_arg = None"
  shows "(let r = solve solver ctrl t0 t1 y0 dt0_arg max_steps in
            (status r = DONE \<longrightarrow> num_accepted_steps r = nat \<lceil>\<bar>t1 - t0\<bar> / \<bar>dt0\<bar>\<rceil>) \<and>
            ((\<forall>a b v. \<exists>y1 e. step solver a b v = Candidate y1 e) \<and> nat \<lceil>\<bar>t1 - t0\<bar> / \<bar>dt0\<bar>\<rceil> \<le> max_steps
               \<longrightarrow> status r = DONE)) \<and>
         compiled_num_steps ctrl (Static t0) (Static t1) (map_option Static dt0_arg) =
           Inr (Known (nat \<lceil>\<bar>t1 - t0\<bar> / \<bar>dt0\<bar>\<rceil>))"
proof (rule conjI)
  have "length (uniform_grid t0 t1 dt0) - 1 = num_steps t0 t1 dt0"
    by (simp add: uniform_grid_length)
  with assms(3)
  show "compiled_num_steps ctrl (Static t0) (Static t1) (map_option Static dt0_arg) =
           Inr (Known (nat \<lceil>\<bar>t1 - t0\<bar> / \<bar>dt0\<bar>\<rceil>))"
    by (auto simp: compiled_num_steps_def batch_sizes_def any_traced_def element_count_def
        num_steps_def List.map_filter_simps)
next
  show "(let r = solve solver ctrl t0 t1 y0 dt0_arg max_steps in
            (status r = DONE \<longrightarrow> num_accepted_steps r = nat \<lceil>\<bar>t1 - t0\<bar> / \<bar>dt0\<bar>\<rceil>) \<and>
            ((\<forall>a b v. \<exists>y1 e. step solver a b v = Candidate y1 e) \<and> nat \<lceil>\<bar>t1 - t0\<bar> / \<bar>dt0\<bar>\<rceil> \<le> max_steps
               \<longrightarrow> status r = DONE))"
  proof (cases "t0 = t1")
  case True
  have "uniform_grid t0 t1 dt0 = [t0]" using True by (simp add: uniform_grid_def num_steps_def)
  with assms True show ?thesis
    by (auto simp: solve_constant solve_stepto run_stopped Let_def)
next
  case False
  with assms(1,2) have dir: "0 < dt0 * (t1 - t0)" by (simp add: less_le)
  let ?N = "num_steps t0 t1 dt0"
  have N: "nat \<lceil>\<bar>t1 - t0\<bar> / \<bar>dt0\<bar>\<rceil> = ?N" by (simp add: num_steps_def)
  from assms(3) show ?thesis
  proof
    assume c: "ctrl = ConstantStepSize \<and> dt0_arg = Some dt0"
    let ?s0 = "\<lparr>tprev = t0, ycur = y0, dtcur = dt0, grid_ahead = [], status = RUNNING,
              num_accepted_steps = 0, num_rejected_steps = 0, accepted = []\<rparr>"
    have "solve solver ctrl t0 t1 y0 dt0_arg max_steps = run max_steps solver ConstantStepSize t0 t1 ?s0"
      using c False solve_constant[OF assms(1,2)] by simp
    moreover from run_constant[OF dir, of 0 ?s0 max_steps solver] num_steps_pos[OF dir]
    have "let r = run max_steps solver ConstantStepSize t0 t1 ?s0 in
            (status r = DONE \<longrightarrow> num_accepted_steps r = ?N) \<and>
            ((\<forall>a b v. \<exists>y1 e. step solver a b v = Candidate y1 e) \<and> ?N \<le> max_steps \<longrightarrow> status r = DONE)"
      by (simp add: Let_def)
    ultimately show ?thesis unfolding N by simp
  next
    assume c: "ctrl = StepTo (uniform_grid t0 t1 dt0) \<and> dt0_arg = None"
    from uniform_grid_Cons[OF dir] obtain g gs where ug: "uniform_grid t0 t1 dt0 = t0 # g # gs"
      by blast
    let ?s0 = "\<lparr>tprev = t0, ycur = y0, dtcur = next_gap t0 (g # gs) 0, grid_ahead = g # gs, status = RUNNING,
              num_accepted_steps = 0, num_rejected_steps = 0, accepted = []\<rparr>"
    have len: "length (g # gs) = ?N"
      using uniform_grid_length[of t0 t1 dt0] unfolding ug by simp
    have "solve solver ctrl t0 t1 y0 dt0_arg max_steps =
            run max_steps solver (StepTo (uniform_grid t0 t1 dt0)) t0 t1 ?s0"
      using c False solve_stepto[OF ug uniform_grid_last] by simp
    moreover have "sorted_wrt (\<lambda>a b. 0 < sgn (t1 - t0) * (b - a)) (g # gs)"
      using uniform_grid_sorted[OF dir] unfolding ug by simp
    moreover have "last (g # gs) = t1" using uniform_grid_last[of t0 t1 dt0] unfolding ug by simp
    ultimately show ?thesis
      using run_stepto[of ?s0 g gs t1 t0 max_steps solver "uniform_grid t0 t1 dt0"] len
      unfolding N by (simp add: Let_def next_gap_def)
  qed
qed
qed

theorem step_count_determinism_witness:
  "status (solve (euler (\<lambda>t v. - v)) ConstantStepSize 0 1 1 (Some (1 / 10)) 4096) = DONE \<and>
   num_accepted_steps (solve (euler (\<lambda>t v. - v)) ConstantStepSize 0 1 1 (Some (1 / 10)) 4096) = 10 \<and>
   status (solve (euler (\<lambda>t v. - v)) ConstantStepSize 0 1 1 (Some (1 / 100)) 4096) = DONE \<and>
   num_accepted_steps (solve (euler (\<lambda>t v. - v)) ConstantStepSize 0 1 1 (Some (1 / 100)) 4096) = 100"
proof -
  have total: "\<forall>a b v. \<exists>y1 e. step (euler (\<lambda>t v. - v)) a b v = Candidate y1 e"
    by (simp add: euler_def)
  have a: "nat \<lceil>\<bar>1 - 0 :: rat\<bar> / \<bar>1 / 10\<bar>\<rceil> = 10" by simp
  have b: "nat \<lceil>\<bar>1 - 0 :: rat\<bar> / \<bar>1 / 100\<bar>\<rceil> = 100" by simp
  from step_count_determinism[of "1 / 10" 1 0 ConstantStepSize "Some (1 / 10)"
      "euler (\<lambda>t v. - v)" 1 4096] total
  have "status (solve (euler (\<lambda>t v. - v)) ConstantStepSize 0 1 1 (Some (1 / 10)) 4096) = DONE \<and>
   num_accepted_steps (solve (euler (\<lambda>t v. - v)) ConstantStepSize 0 1 1 (Some (1 / 10)) 4096) = 10"
    unfolding a by (simp add: Let_def)
  moreover
  from step_count_determinism[of "1 / 100" 1 0 ConstantStepSize "Some (1 / 100)"
      "euler (\<lambda>t v. - v)" 1 4096] total
  have "status (solve (euler (\<lambda>t v. - v)) ConstantStepSize 0 1 1 (Some (1 / 100)) 4096) = DONE \<and>
   num_accepted_steps (solve (euler (\<lambda>t v. - v)) ConstantStepSize 0 1 1 (Some (1 / 100)) 4096) = 100"
    unfolding b by (simp add: Let_def)
  ultimately show ?thesis by blast
qed





section \<open>Properties of the compiled step count\<close>

lemma compiled_num_steps_test_compile_time_steps:
  "compiled_num_steps (PIDController (scalar_pid 1 1)) (Static 0) (Static 1) None = Inr Unavailable"
  "compiled_num_steps (PIDController (scalar_pid 1 1)) (Static 0) (Static 1) (Some (Static (1 / 10)))
     = Inr Unavailable"
  "compiled_num_steps (ConstantStepSize :: rat controller) (Static 0) (Static 1) (Some (Static (1 / 10)))
     = Inr (Known 10)"
  "compiled_num_steps (ConstantStepSize :: rat controller) (Static 0) (Static 1) (Some (Static (1 / 100)))
     = Inr (Known 100)"
  "compiled_num_steps (StepTo [0, 3 / 10, 1 / 2, 1] :: rat controller) (Static 0) (Static 1) None
     = Inr (Known 3)"
  "compiled_num_steps (ConstantStepSize :: rat controller) Traced (Static 1) (Some (Static (1 / 10)))
     = Inr Unavailable"
  "compiled_num_steps (ConstantStepSize :: rat controller) (Static 0) Traced (Some (Static (1 / 10)))
     = Inr Unavailable"
  "compiled_num_steps (ConstantStepSize :: rat controller) (Static 0) (Static 1) (Some Traced)
     = Inr Unavailable"
  "compiled_num_steps (ConstantStepSize :: rat controller) (Batched [0, 0]) (Static 1)
     (Some (Static (1 / 10))) = Inr (KnownBatch [10, 10])"
  "compiled_num_steps (ConstantStepSize :: rat controller) (Static 0) (Batched [1, 2])
     (Some (Static (1 / 10))) = Inr (KnownBatch [20, 20])"
  "compiled_num_steps (ConstantStepSize :: rat controller) (Static 0) (Static 1)
     (Some (Batched [1 / 10, 1 / 20])) = Inr (KnownBatch [20, 20])"
  by code_simp+









section \<open>Properties of solves over nested containers\<close>



lemma fold_min_le: "fold min ks (n::nat) \<le> n"
proof (induction ks arbitrary: n)
  case Nil
  show ?case by simp
next
  case (Cons k ks)
  have "fold min ks (min k n) \<le> min k n" by (rule Cons.IH)
  then show ?case by simp
qed

lemma zip_star_length_le: "length (zip_star (l # ls)) \<le> length l"
  by (simp add: zip_star_def fold_min_le)
































section \<open>Time reversal\<close>























end
